theory Spec2Isabelle
  imports Complex_Main "HOL-Library.Word"
begin

section \<open>Data model\<close>

text \<open>
  A sample is one RGBA pixel, four 8-bit channels \<open>(r, g, b, a)\<close>. An image is what the
  imaging library hands to the program: its size and its pixel access \<open>pixels[x, y]\<close>.
  A decoded frame is modelled by its RGBA view, so \<open>convert("RGBA")\<close> is a copy.
\<close>

type_synonym sample = "8 word \<times> 8 word \<times> 8 word \<times> 8 word"

record image =
  im_width :: int
  im_height :: int
  im_pixels :: "int \<Rightarrow> int \<Rightarrow> sample"

text \<open>
  A drawing command is the dictionary appended to \<open>commands\<close>. Python's true division
  \<open>/\<close> of two integers gives the float nearest to the exact quotient; the model keeps the
  exact quotient in \<open>rat\<close>. Rounding to nearest is monotone, so an order or an equality
  between two quotients, or between a quotient and \<open>0\<close> or \<open>1\<close>, holds for the floats when
  it holds for the exact values. \<open>color\<close> holds what the variable \<open>current_line_color\<close>
  holds, a string or \<open>None\<close>.
\<close>

record command =
  start_norm :: "rat \<times> rat"
  end_norm :: "rat \<times> rat"
  color :: "string option"
  thickness :: int

datatype error = ValueError | ZeroDivisionError

section \<open>Color codec: \<open>rgb_to_hex\<close>\<close>

definition hex_digit :: "nat \<Rightarrow> char" where
  "hex_digit d = ''0123456789ABCDEF'' ! d"

definition hex2 :: "8 word \<Rightarrow> string" where
  "hex2 w = [hex_digit (unat w div 16), hex_digit (unat w mod 16)]"

definition rgb_to_hex :: "8 word \<times> 8 word \<times> 8 word \<Rightarrow> string" where
  "rgb_to_hex rgb_color =
     (case rgb_color of (r, g, b) \<Rightarrow> CHR ''#'' # hex2 r @ hex2 g @ hex2 b)"

section \<open>Python's \<open>range(start, stop, step)\<close>\<close>

text \<open>
  The elements of \<open>range(x, n, q)\<close> for a step \<open>q \<noteq> 0\<close>. A step of \<open>0\<close> raises
  \<open>ValueError\<close>; the callers below test for it before they ask for the elements.
\<close>

function py_range :: "int \<Rightarrow> int \<Rightarrow> int \<Rightarrow> int list" where
  "py_range x n q =
     (if (0 < q \<and> x < n) \<or> (q < 0 \<and> n < x) then x # py_range (x + q) n q else [])"
  by pat_completeness auto
termination
  by (relation "measure (\<lambda>(x, n, q). nat (if 0 < q then n - x else x - n))") auto

declare py_range.simps [simp del]

section \<open>Scanline segment encoder\<close>

text \<open>
  The dictionary literal that the source writes out at its three \<open>commands.append\<close>
  sites, with the end column \<open>end_x\<close> as the one part that differs between them
  (\<open>x - 1\<close> at a color change and at a transparent pixel, \<open>width - 1\<close> at the end of a row).
\<close>

definition segment ::
  "int \<times> int \<Rightarrow> int \<Rightarrow> int \<Rightarrow> int \<Rightarrow> int \<Rightarrow> int \<Rightarrow> int \<Rightarrow> string option \<Rightarrow> command" where
  "segment output_size offset_x offset_y brush_thickness start_x end_x y col =
     \<lparr>start_norm = (of_int (start_x + offset_x) / of_int (fst output_size),
                    of_int (y + offset_y) / of_int (snd output_size)),
      end_norm = (of_int (end_x + offset_x) / of_int (fst output_size),
                  of_int (y + offset_y) / of_int (snd output_size)),
      color = col,
      thickness = brush_thickness\<rparr>"

text \<open>
  The state of the inner loop: \<open>current_line_start_x\<close> (with \<open>-1\<close> for "no run"),
  \<open>current_line_color\<close> and the list \<open>commands\<close>.
\<close>

type_synonym run_state = "int \<times> string option \<times> command list"

text \<open>The body of \<open>for x in range(0, width, quality_factor)\<close>.\<close>

definition pixel_step ::
  "(int \<Rightarrow> int \<Rightarrow> sample) \<Rightarrow> int \<times> int \<Rightarrow> int \<Rightarrow> int \<Rightarrow> int \<Rightarrow> int \<Rightarrow> int \<Rightarrow> int
     \<Rightarrow> run_state \<Rightarrow> run_state" where
  "pixel_step pixels output_size offset_x offset_y brush_thickness transparency_threshold y x st =
     (case st of (current_line_start_x, current_line_color, commands) \<Rightarrow>
        (case pixels x y of (r, g, b, a) \<Rightarrow>
           if transparency_threshold < uint a then
             (let hex_color = rgb_to_hex (r, g, b) in
                if current_line_start_x = - 1 then (x, Some hex_color, commands)
                else if Some hex_color \<noteq> current_line_color then
                  (x, Some hex_color,
                   commands @ [segment output_size offset_x offset_y brush_thickness
                                 current_line_start_x (x - 1) y current_line_color])
                else (current_line_start_x, current_line_color, commands))
           else
             if current_line_start_x \<noteq> - 1 then
               (- 1, None,
                commands @ [segment output_size offset_x offset_y brush_thickness
                              current_line_start_x (x - 1) y current_line_color])
             else (current_line_start_x, current_line_color, commands)))"

text \<open>
  The body of \<open>for y in range(0, height, quality_factor)\<close>: the run state is reset, the
  columns are visited, and a run still open after the last one is closed at \<open>width - 1\<close>.
  Only reached with \<open>quality_factor \<noteq> 0\<close>.
\<close>

definition row_step ::
  "(int \<Rightarrow> int \<Rightarrow> sample) \<Rightarrow> int \<times> int \<Rightarrow> int \<Rightarrow> int \<Rightarrow> int \<Rightarrow> int \<Rightarrow> int \<Rightarrow> int
     \<Rightarrow> command list \<Rightarrow> command list" where
  "row_step pixels output_size offset_x offset_y brush_thickness quality_factor
            transparency_threshold y commands =
     (let width = fst output_size in
      case fold (pixel_step pixels output_size offset_x offset_y brush_thickness
                   transparency_threshold y)
                (py_range 0 width quality_factor) (- 1, None, commands)
      of (current_line_start_x, current_line_color, commands') \<Rightarrow>
        if current_line_start_x \<noteq> - 1 then
          commands' @ [segment output_size offset_x offset_y brush_thickness
                         current_line_start_x (width - 1) y current_line_color]
        else commands')"

text \<open>
  Lines 41 to 91: the two nested loops over the canvas, whose size \<open>img.size\<close> is
  \<open>output_size\<close>. \<open>range\<close> raises \<open>ValueError\<close> for a step of \<open>0\<close>.
\<close>

definition scan_canvas ::
  "(int \<Rightarrow> int \<Rightarrow> sample) \<Rightarrow> int \<times> int \<Rightarrow> int \<Rightarrow> int \<Rightarrow> int \<Rightarrow> int \<Rightarrow> int
     \<Rightarrow> error + command list" where
  "scan_canvas pixels output_size offset_x offset_y brush_thickness quality_factor
               transparency_threshold =
     (let height = snd output_size in
      if quality_factor = 0 then Inl ValueError
      else Inr (fold (row_step pixels output_size offset_x offset_y brush_thickness
                        quality_factor transparency_threshold)
                     (py_range 0 height quality_factor) []))"

section \<open>Frame normalizer\<close>

text \<open>
  \<open>Image.thumbnail\<close>, \<open>Image.new\<close> and \<open>Image.paste\<close> belong to the imaging library, not
  to this repository. \<open>thumbnail(size)\<close> returns at once, leaving the image as it is, when
  \<open>size\<close> is at least the image's size in both dimensions; otherwise it replaces the
  image by a resampled one of a size that fits. The resampling (LANCZOS, with the
  library's rounding of the aspect-preserving size) is the parameter \<open>resize\<close>.
\<close>

definition thumbnail :: "(int \<times> int \<Rightarrow> image \<Rightarrow> image) \<Rightarrow> int \<times> int \<Rightarrow> image \<Rightarrow> image" where
  "thumbnail resize target img =
     (if im_width img \<le> fst target \<and> im_height img \<le> snd target then img
      else resize target img)"

definition new_image :: "int \<times> int \<Rightarrow> sample \<Rightarrow> image" where
  "new_image target fill =
     \<lparr>im_width = fst target, im_height = snd target, im_pixels = (\<lambda>x y. fill)\<rparr>"

definition paste :: "image \<Rightarrow> image \<Rightarrow> int \<times> int \<Rightarrow> image" where
  "paste dest src box =
     dest\<lparr>im_pixels := (\<lambda>x y.
        if fst box \<le> x \<and> x < fst box + im_width src \<and> snd box \<le> y \<and> y < snd box + im_height src
        then im_pixels src (x - fst box) (y - snd box)
        else im_pixels dest x y)\<rparr>"

text \<open>
  Lines 29 to 39: the scaled frame, centred on a transparent canvas, and the offsets.
  \<open>output_size\<close> is a pair of positive integers (the library rejects other sizes); the
  resampling returns an image no larger than the target, so the offsets are not negative.
\<close>

definition normalize_frame ::
  "(int \<times> int \<Rightarrow> image \<Rightarrow> image) \<Rightarrow> image \<Rightarrow> int \<times> int \<Rightarrow> image \<times> int \<times> int" where
  "normalize_frame resize image_input output_size =
     (let img = thumbnail resize output_size image_input;
          new_img = new_image output_size (255, 255, 255, 0);
          offset_x = (fst output_size - im_width img) div 2;
          offset_y = (snd output_size - im_height img) div 2
      in (paste new_img img (offset_x, offset_y), offset_x, offset_y))"

definition get_drawing_commands_from_image ::
  "(int \<times> int \<Rightarrow> image \<Rightarrow> image) \<Rightarrow> image \<Rightarrow> int \<times> int \<Rightarrow> int \<Rightarrow> int \<Rightarrow> int
     \<Rightarrow> error + command list" where
  "get_drawing_commands_from_image resize image_input output_size brush_thickness
                                   quality_factor transparency_threshold =
     (case normalize_frame resize image_input output_size of (img, offset_x, offset_y) \<Rightarrow>
        scan_canvas (im_pixels img) output_size offset_x offset_y brush_thickness
                    quality_factor transparency_threshold)"

subsection \<open>The same function over an object store\<close>

text \<open>
  Images are mutable objects: \<open>thumbnail\<close> and \<open>paste\<close> change the object they are called
  on, \<open>convert\<close> and \<open>Image.new\<close> create a new one. The store is the list of all image
  objects, a reference is an index into it.
\<close>

type_synonym store = "image list"

definition alloc :: "image \<Rightarrow> store \<Rightarrow> nat \<times> store" where
  "alloc img st = (length st, st @ [img])"

definition get_drawing_commands_from_image_st ::
  "(int \<times> int \<Rightarrow> image \<Rightarrow> image) \<Rightarrow> nat \<Rightarrow> int \<times> int \<Rightarrow> int \<Rightarrow> int \<Rightarrow> int \<Rightarrow> store
     \<Rightarrow> (error + command list) \<times> store" where
  "get_drawing_commands_from_image_st resize image_input output_size brush_thickness
                                      quality_factor transparency_threshold st0 =
     (case alloc (st0 ! image_input) st0 of (img, st1) \<Rightarrow>
      let st2 = st1[img := thumbnail resize output_size (st1 ! img)] in
      case alloc (new_image output_size (255, 255, 255, 0)) st2 of (new_img, st3) \<Rightarrow>
      let offset_x = (fst output_size - im_width (st3 ! img)) div 2;
          offset_y = (snd output_size - im_height (st3 ! img)) div 2;
          st4 = st3[new_img := paste (st3 ! new_img) (st3 ! img) (offset_x, offset_y)];
          pixels = im_pixels (st4 ! new_img)
      in (scan_canvas pixels output_size offset_x offset_y brush_thickness
                      quality_factor transparency_threshold, st4))"

section \<open>Frame aggregator: \<open>gif_to_drawaria_json_processor\<close>\<close>

text \<open>
  What the decoder gives for an opened file: \<open>gif.info.get('duration')\<close> and the
  frames of \<open>ImageSequence.Iterator(gif)\<close>.
\<close>

record gif_source =
  duration :: "int option"
  gif_frames :: "image list"

record processing_options =
  opt_brush_thickness :: int
  opt_quality_factor :: int
  opt_transparency_threshold :: int
  max_frames_processed :: "int option"

record metadata =
  md_width :: int
  md_height :: int
  original_fps :: rat
  frame_count :: int
  total_commands_generated :: int
  processing_options :: processing_options

record output_data =
  frames :: "command list list"
  metadata :: metadata

definition py_truediv :: "int \<Rightarrow> int \<Rightarrow> error + rat" where
  "py_truediv a b = (if b = 0 then Inl ZeroDivisionError else Inr (of_int a / of_int b))"

text \<open>
  Lines 108 and 123 to 127: \<open>original_fps\<close> starts at \<open>10\<close>; an exception raised by
  the division is swallowed by the bare \<open>except\<close> and leaves it there.
\<close>

definition determine_fps :: "int option \<Rightarrow> rat" where
  "determine_fps dur =
     (case dur of
        None \<Rightarrow> 10
      | Some d \<Rightarrow> (case py_truediv 1000 d of Inl e \<Rightarrow> 10 | Inr fps \<Rightarrow> fps))"

text \<open>
  The loop of lines 132 to 149 over \<open>enumerate(frames)\<close>, from index \<open>i\<close>, with the
  accumulators \<open>frames_data\<close>, \<open>total_commands\<close> and \<open>frame_count\<close> (here \<open>count\<close>). An exception of the
  encoder is not caught here.
\<close>

fun process_frames ::
  "(int \<times> int \<Rightarrow> image \<Rightarrow> image) \<Rightarrow> int \<times> int \<Rightarrow> int \<Rightarrow> int \<Rightarrow> int \<Rightarrow> int option \<Rightarrow> nat
     \<Rightarrow> image list \<Rightarrow> command list list \<times> int \<times> int
     \<Rightarrow> error + command list list \<times> int \<times> int" where
  "process_frames resize output_size brush_thickness quality_factor transparency_threshold
                  max_frames i [] acc = Inr acc"
| "process_frames resize output_size brush_thickness quality_factor transparency_threshold
                  max_frames i (frame # rest) (frames_data, total_commands, count) =
     (if (case max_frames of None \<Rightarrow> False | Some m \<Rightarrow> m \<le> int i)
      then Inr (frames_data, total_commands, count)
      else
        (case get_drawing_commands_from_image resize frame output_size brush_thickness
                quality_factor transparency_threshold of
           Inl e \<Rightarrow> Inl e
         | Inr commands \<Rightarrow>
             process_frames resize output_size brush_thickness quality_factor
               transparency_threshold max_frames (Suc i) rest
               (frames_data @ [commands], total_commands + int (length commands),
                count + 1)))"

text \<open>
  The result is \<open>Inr None\<close> when the file could not be opened (the function logs and
  returns), \<open>Inl e\<close> when an exception leaves the function, and otherwise the
  \<open>output_data\<close> handed to \<open>json.dump\<close>, whose failure is only logged.
\<close>

definition gif_to_drawaria_json_processor ::
  "(int \<times> int \<Rightarrow> image \<Rightarrow> image) \<Rightarrow> gif_source option \<Rightarrow> int \<times> int \<Rightarrow> int \<Rightarrow> int \<Rightarrow> int
     \<Rightarrow> int option \<Rightarrow> error + output_data option" where
  "gif_to_drawaria_json_processor resize opened output_size brush_thickness quality_factor
                                  transparency_threshold max_frames =
     (case opened of
        None \<Rightarrow> Inr None
      | Some gif \<Rightarrow>
          (let fps = determine_fps (duration gif) in
           case process_frames resize output_size brush_thickness quality_factor
                  transparency_threshold max_frames 0 (gif_frames gif) ([], 0, 0) of
             Inl e \<Rightarrow> Inl e
           | Inr (frames_data, total_commands, count) \<Rightarrow>
               Inr (Some \<lparr>frames = frames_data,
                          metadata = \<lparr>md_width = fst output_size,
                                      md_height = snd output_size,
                                      original_fps = fps,
                                      frame_count = count,
                                      total_commands_generated = total_commands,
                                      processing_options =
                                        \<lparr>opt_brush_thickness = brush_thickness,
                                         opt_quality_factor = quality_factor,
                                         opt_transparency_threshold = transparency_threshold,
                                         max_frames_processed = max_frames\<rparr>\<rparr>\<rparr>)))"

section \<open>The run-closing rule in the specification's words\<close>

text \<open>
  Section 4.3 of the specification describes the scan of one row with the run state
  "none, or (run_start_x, run_color)" and closes a run at the last visited column that
  is part of it. \<open>OpenRun s c l\<close> is an open run that started at column \<open>s\<close> with color
  \<open>c\<close> and whose last visited column so far is \<open>l\<close>. The result is the list of runs
  \<open>(start column, end column, color)\<close> of the row.
\<close>

datatype run = NoRun | OpenRun int string int

definition spec_pixel_step ::
  "(int \<Rightarrow> int \<Rightarrow> sample) \<Rightarrow> int \<Rightarrow> int \<Rightarrow> int
     \<Rightarrow> run \<times> (int \<times> int \<times> string) list \<Rightarrow> run \<times> (int \<times> int \<times> string) list" where
  "spec_pixel_step pixels transparency_threshold y x st =
     (case st of (rn, runs) \<Rightarrow>
        (case pixels x y of (r, g, b, a) \<Rightarrow>
           if transparency_threshold < uint a then
             (case rn of
                NoRun \<Rightarrow> (OpenRun x (rgb_to_hex (r, g, b)) x, runs)
              | OpenRun s c l \<Rightarrow>
                  if rgb_to_hex (r, g, b) \<noteq> c
                  then (OpenRun x (rgb_to_hex (r, g, b)) x, runs @ [(s, l, c)])
                  else (OpenRun s c x, runs))
           else
             (case rn of
                NoRun \<Rightarrow> (NoRun, runs)
              | OpenRun s c l \<Rightarrow> (NoRun, runs @ [(s, l, c)]))))"

definition spec_row_runs ::
  "(int \<Rightarrow> int \<Rightarrow> sample) \<Rightarrow> int \<Rightarrow> int \<Rightarrow> int \<Rightarrow> int \<Rightarrow> (int \<times> int \<times> string) list" where
  "spec_row_runs pixels width stride transparency_threshold y =
     (case fold (spec_pixel_step pixels transparency_threshold y)
                (py_range 0 width stride) (NoRun, []) of
        (NoRun, runs) \<Rightarrow> runs
      | (OpenRun s c l, runs) \<Rightarrow> runs @ [(s, l, c)])"

text \<open>
  The command of a run \<open>(s, e, c)\<close> of row \<open>y\<close>, built as the source builds it, and the
  run whose end is moved from its last visited column \<open>e\<close> to the last raw column before
  the next visited one, \<open>e + stride - 1\<close>, or to the last column of the canvas.
\<close>

definition run_command ::
  "int \<times> int \<Rightarrow> int \<Rightarrow> int \<Rightarrow> int \<Rightarrow> int \<Rightarrow> int \<times> int \<times> string \<Rightarrow> command" where
  "run_command output_size offset_x offset_y brush_thickness y rn =
     (case rn of (s, e, c) \<Rightarrow>
        segment output_size offset_x offset_y brush_thickness s e y (Some c))"

definition widen :: "int \<Rightarrow> int \<Rightarrow> int \<times> int \<times> string \<Rightarrow> int \<times> int \<times> string" where
  "widen stride width rn = (case rn of (s, e, c) \<Rightarrow> (s, min (e + stride - 1) (width - 1), c))"

section \<open>The normalizer's scaling in the specification's words\<close>



text \<open>The alpha channel of a sample, for the statements below.\<close>

definition alpha :: "sample \<Rightarrow> 8 word" where
  "alpha s = (case s of (r, g, b, a) \<Rightarrow> a)"

text \<open>
  A command read back in the coordinates the source emits: \<open>on_row c y\<close> when the
  command lies on canvas row \<open>y\<close>, \<open>spans c x\<close> when canvas column \<open>x\<close> lies between its
  two ends.
\<close>

definition on_row :: "int \<times> int \<Rightarrow> int \<Rightarrow> command \<Rightarrow> int \<Rightarrow> bool" where
  "on_row output_size offset_y c y \<longleftrightarrow>
     snd (start_norm c) = of_int (y + offset_y) / of_int (snd output_size)"

definition spans :: "int \<times> int \<Rightarrow> int \<Rightarrow> command \<Rightarrow> int \<Rightarrow> bool" where
  "spans output_size offset_x c x \<longleftrightarrow>
     fst (start_norm c) \<le> of_int (x + offset_x) / of_int (fst output_size) \<and>
     of_int (x + offset_x) / of_int (fst output_size) \<le> fst (end_norm c)"

section \<open>Concrete inputs used by the checks below\<close>

text \<open>
  A frame of one color; a stand-in for the library's resampling that cuts the image
  down to the target; and the resampling of a run in which no frame exceeds the canvas
  (there \<open>thumbnail\<close> never calls it).
\<close>

definition solid :: "int \<Rightarrow> int \<Rightarrow> sample \<Rightarrow> image" where
  "solid w h s = \<lparr>im_width = w, im_height = h, im_pixels = (\<lambda>x y. s)\<rparr>"

definition shrink_resize :: "int \<times> int \<Rightarrow> image \<Rightarrow> image" where
  "shrink_resize target img =
     img\<lparr>im_width := min (im_width img) (fst target),
         im_height := min (im_height img) (snd target)\<rparr>"

definition no_resize :: "int \<times> int \<Rightarrow> image \<Rightarrow> image" where
  "no_resize target img = img"


section \<open>The encoder\<close>

subsection \<open>Visited columns and rows\<close>

lemma py_range_bounds:
  "v \<in> set (py_range x n q) \<Longrightarrow> (0 < q \<longrightarrow> x \<le> v \<and> v < n) \<and> (q < 0 \<longrightarrow> n < v \<and> v \<le> x)"
proof (induction x n q rule: py_range.induct)
  case (1 x n q)
  show ?case
  proof (cases "(0 < q \<and> x < n) \<or> (q < 0 \<and> n < x)")
    case True
    with "1.prems" have "v = x \<or> v \<in> set (py_range (x + q) n q)"
      by (simp add: py_range.simps [of x n q])
    then show ?thesis
    proof
      assume "v = x"
      with True show ?thesis by auto
    next
      assume "v \<in> set (py_range (x + q) n q)"
      from "1.IH" [OF True this] show ?thesis by auto
    qed
  next
    case False
    with "1.prems" show ?thesis by (simp add: py_range.simps [of x n q])
  qed
qed

lemma py_range_in_canvas:
  "0 \<le> n \<Longrightarrow> v \<in> set (py_range 0 n q) \<Longrightarrow> 0 \<le> v \<and> v < n"
proof -
  assume n: "0 \<le> n" and v: "v \<in> set (py_range 0 n q)"
  have "q \<noteq> 0" using v by (auto simp: py_range.simps [of 0 n 0])
  with py_range_bounds [OF v] n show ?thesis by (cases "0 < q") auto
qed

lemma py_range_negative_step: "0 \<le> n \<Longrightarrow> q < 0 \<Longrightarrow> py_range 0 n q = []"
  by (simp add: py_range.simps [of 0 n q])

subsection \<open>An invariant of the emitted commands\<close>

lemma pixel_step_inv:
  assumes seg: "\<And>s e c. s \<le> e \<Longrightarrow> P (segment sz ox oy bt s e y c)"
    and "\<forall>c\<in>set cmds. P c" and "s = - 1 \<or> s < x"
    and "pixel_step px sz ox oy bt thr y x (s, c, cmds) = (s1, c1, cmds1)"
  shows "(\<forall>c\<in>set cmds1. P c) \<and> (s1 = - 1 \<or> s1 = x \<or> s1 = s)"
  using assms(2-)
  by (auto simp: pixel_step_def Let_def seg split: prod.splits if_splits)

lemma fold_pixel_step_inv:
  assumes seg: "\<And>s e c. s \<le> e \<Longrightarrow> P (segment sz ox oy bt s e y c)"
  shows "0 < q \<Longrightarrow> (\<forall>c\<in>set cmds. P c) \<Longrightarrow> s = - 1 \<or> (s < x \<and> s < n) \<Longrightarrow>
         fold (pixel_step px sz ox oy bt thr y) (py_range x n q) (s, c, cmds) = (s', c', cmds') \<Longrightarrow>
         (\<forall>c\<in>set cmds'. P c) \<and> (s' = - 1 \<or> s' < n)"
proof (induction x n q arbitrary: s c cmds rule: py_range.induct)
  case (1 x n q)
  show ?case
  proof (cases "(0 < q \<and> x < n) \<or> (q < 0 \<and> n < x)")
    case True
    obtain s1 c1 cmds1 where
      step: "pixel_step px sz ox oy bt thr y x (s, c, cmds) = (s1, c1, cmds1)"
      by (metis prod_cases3)
    from "1.prems"(3) have "s = - 1 \<or> s < x" by auto
    from pixel_step_inv [of P sz ox oy bt y, OF seg "1.prems"(2) this step]
    have P1: "\<forall>c\<in>set cmds1. P c" and s1: "s1 = - 1 \<or> s1 = x \<or> s1 = s" by auto
    from True s1 "1.prems"(1,3) have inv1: "s1 = - 1 \<or> (s1 < x + q \<and> s1 < n)"
      by auto
    from "1.prems"(4) True step have
      "fold (pixel_step px sz ox oy bt thr y) (py_range (x + q) n q) (s1, c1, cmds1) = (s', c', cmds')"
      by (simp add: py_range.simps [of x n q])
    from "1.IH" [OF True "1.prems"(1) P1 inv1 this] show ?thesis .
  next
    case False
    with "1.prems" show ?thesis by (auto simp: py_range.simps [of x n q])
  qed
qed


lemma row_step_inv:
  assumes q: "0 < q"
    and seg: "\<And>s e c. s \<le> e \<Longrightarrow> P (segment sz ox oy bt s e y c)"
    and cmds: "\<forall>c\<in>set cmds. P c"
  shows "\<forall>c\<in>set (row_step px sz ox oy bt q thr y cmds). P c"
proof -
  obtain s' c' cmds' where
    run: "fold (pixel_step px sz ox oy bt thr y) (py_range 0 (fst sz) q) (- 1, None, cmds) =
            (s', c', cmds')"
    by (metis prod_cases3)
  from fold_pixel_step_inv [of P sz ox oy bt y q cmds "- 1" 0 "fst sz" px thr None, OF seg q cmds _ run]
  have P': "\<forall>c\<in>set cmds'. P c" and s': "s' = - 1 \<or> s' < fst sz" by auto
  show ?thesis
  proof (cases "s' = - 1")
    case True
    with run P' show ?thesis by (simp add: row_step_def)
  next
    case False
    with s' have "s' \<le> fst sz - 1" by simp
    from seg [OF this] P' run False show ?thesis by (simp add: row_step_def)
  qed
qed

lemma fold_row_step_inv:
  assumes q: "0 < q"
    and seg: "\<And>s e y c. s \<le> e \<Longrightarrow> P (segment sz ox oy bt s e y c)"
  shows "(\<forall>c\<in>set cmds. P c) \<Longrightarrow>
         \<forall>c\<in>set (fold (row_step px sz ox oy bt q thr) ys cmds). P c"
proof (induction ys arbitrary: cmds)
  case Nil
  then show ?case by simp
next
  case (Cons y ys)
  from row_step_inv [of q P sz ox oy bt y cmds px thr, OF q seg Cons.prems]
  have "\<forall>c\<in>set (row_step px sz ox oy bt q thr y cmds). P c" .
  from Cons.IH [OF this] show ?case by simp
qed

lemma segment_horizontal:
  assumes "0 < fst sz" and "s \<le> e"
  shows "snd (start_norm (segment sz ox oy bt s e y c)) = snd (end_norm (segment sz ox oy bt s e y c)) \<and>
         fst (start_norm (segment sz ox oy bt s e y c)) \<le> fst (end_norm (segment sz ox oy bt s e y c)) \<and>
         thickness (segment sz ox oy bt s e y c) = bt"
  using assms by (simp add: segment_def divide_right_mono)

text \<open>
  Claim C4. On a canvas of positive size, for every stride, threshold and brush
  thickness, every command that the encoder emits is horizontal (\<open>start.y = end.y\<close>),
  runs from left to right (\<open>start.x \<le> end.x\<close>) and carries the configured brush
  thickness.
\<close>

theorem C4_segments_horizontal:
  assumes "1 \<le> fst output_size" and "1 \<le> snd output_size"
    and "scan_canvas pixels output_size offset_x offset_y brush_thickness quality_factor
           transparency_threshold = Inr commands"
    and "c \<in> set commands"
  shows "snd (start_norm c) = snd (end_norm c) \<and>
         fst (start_norm c) \<le> fst (end_norm c) \<and>
         thickness c = brush_thickness"
proof (cases "0 < quality_factor")
  case True
  let ?P = "\<lambda>c. snd (start_norm c) = snd (end_norm c) \<and> fst (start_norm c) \<le> fst (end_norm c) \<and>
                 thickness c = brush_thickness"
  have seg: "\<And>s e y col. s \<le> e \<Longrightarrow> ?P (segment output_size offset_x offset_y brush_thickness s e y col)"
    using assms(1) segment_horizontal [of output_size] by simp
  from assms(3) True have
    "commands = fold (row_step pixels output_size offset_x offset_y brush_thickness
                        quality_factor transparency_threshold)
                     (py_range 0 (snd output_size) quality_factor) []"
    by (simp add: scan_canvas_def)
  with fold_row_step_inv [of quality_factor ?P output_size offset_x offset_y
         brush_thickness "[]" pixels transparency_threshold, OF True seg] assms(4)
  show ?thesis by simp
next
  case False
  with assms(3) have "quality_factor < 0" by (cases "quality_factor = 0") (simp_all add: scan_canvas_def)
  with assms(2,3) have "commands = []"
    by (simp add: scan_canvas_def py_range_negative_step)
  with assms(4) show ?thesis by simp
qed


theorem C4_segments_horizontal_witness:
  "1 \<le> fst (4::int, 1::int) \<and> 1 \<le> snd (4::int, 1::int) \<and>
   scan_canvas (\<lambda>x y. if x < 2 then (255, 0, 0, 255) else (0, 0, 255, 255)) (4, 1) 0 0 2 1 10 =
     Inr [\<lparr>start_norm = (0, 0), end_norm = (1 / 4, 0), color = Some ''#FF0000'', thickness = 2\<rparr>,
          \<lparr>start_norm = (1 / 2, 0), end_norm = (3 / 4, 0), color = Some ''#0000FF'', thickness = 2\<rparr>] \<and>
   snd (start_norm \<lparr>start_norm = (1 / 2, 0), end_norm = (3 / 4, 0), color = Some ''#0000FF'', thickness = 2\<rparr>) =
   snd (end_norm \<lparr>start_norm = (1 / 2, 0), end_norm = (3 / 4, 0), color = Some ''#0000FF'', thickness = 2\<rparr>) \<and>
   fst (start_norm \<lparr>start_norm = (1 / 2, 0), end_norm = (3 / 4, 0), color = Some ''#0000FF'', thickness = 2\<rparr>) \<le>
   fst (end_norm \<lparr>start_norm = (1 / 2, 0), end_norm = (3 / 4, 0), color = Some ''#0000FF'', thickness = 2\<rparr>) \<and>
   thickness \<lparr>start_norm = (1 / 2, 0), end_norm = (3 / 4, 0), color = Some ''#0000FF'', thickness = 2\<rparr> = 2"
proof -
  have run:
    "scan_canvas (\<lambda>x y. if x < 2 then (255, 0, 0, 255) else (0, 0, 255, 255)) (4, 1) 0 0 2 1 10 =
     Inr [\<lparr>start_norm = (0, 0), end_norm = (1 / 4, 0), color = Some ''#FF0000'', thickness = 2\<rparr>,
          \<lparr>start_norm = (1 / 2, 0), end_norm = (3 / 4, 0), color = Some ''#0000FF'', thickness = 2\<rparr>]"
    by code_simp
  from C4_segments_horizontal [OF _ _ run,
         of "\<lparr>start_norm = (1 / 2, 0), end_norm = (3 / 4, 0), color = Some ''#0000FF'', thickness = 2\<rparr>"]
  show ?thesis using run by simp
qed

subsection \<open>Transparent samples\<close>

lemma pixel_step_transparent:
  "\<not> thr < uint (alpha (px x y)) \<Longrightarrow>
     pixel_step px sz ox oy bt thr y x (- 1, c, cmds) = (- 1, c, cmds)"
  by (simp add: pixel_step_def alpha_def split: prod.splits)

lemma fold_pixel_step_transparent:
  "\<forall>x\<in>set xs. \<not> thr < uint (alpha (px x y)) \<Longrightarrow>
     fold (pixel_step px sz ox oy bt thr y) xs (- 1, c, cmds) = (- 1, c, cmds)"
  by (induction xs) (simp_all add: pixel_step_transparent)

lemma pixel_step_grows:
  assumes "pixel_step px sz ox oy bt thr y x (s, c, cmds) = (s1, c1, cmds1)"
  shows "length cmds \<le> length cmds1"
    and "s \<noteq> - 1 \<Longrightarrow> s1 \<noteq> - 1 \<or> length cmds < length cmds1"
    and "thr < uint (alpha (px x y)) \<Longrightarrow> x \<noteq> - 1 \<Longrightarrow> s1 \<noteq> - 1"
  using assms
  by (auto simp: pixel_step_def alpha_def Let_def split: prod.splits if_splits)

lemma fold_pixel_step_grows:
  "fold (pixel_step px sz ox oy bt thr y) xs (s, c, cmds) = (s', c', cmds') \<Longrightarrow>
     \<forall>x\<in>set xs. x \<noteq> - 1 \<Longrightarrow>
     length cmds \<le> length cmds' \<and>
     (s \<noteq> - 1 \<or> (\<exists>x\<in>set xs. thr < uint (alpha (px x y))) \<longrightarrow>
        s' \<noteq> - 1 \<or> length cmds < length cmds')"
proof (induction xs arbitrary: s c cmds)
  case Nil
  then show ?case by simp
next
  case (Cons x xs)
  obtain s1 c1 cmds1 where
    step: "pixel_step px sz ox oy bt thr y x (s, c, cmds) = (s1, c1, cmds1)"
    by (metis prod_cases3)
  with Cons.prems have
    rest: "fold (pixel_step px sz ox oy bt thr y) xs (s1, c1, cmds1) = (s', c', cmds')" and
    xs: "\<forall>x\<in>set xs. x \<noteq> - 1" and x: "x \<noteq> - 1"
    by simp_all
  note ih = Cons.IH [OF rest xs]
  note g = pixel_step_grows [OF step]
  show ?case
  proof (intro conjI impI)
    from ih g(1) show "length cmds \<le> length cmds'" by simp
  next
    assume a: "s \<noteq> - 1 \<or> (\<exists>x\<in>set (x # xs). thr < uint (alpha (px x y)))"
    show "s' \<noteq> - 1 \<or> length cmds < length cmds'"
    proof (cases "s1 \<noteq> - 1 \<or> (\<exists>x\<in>set xs. thr < uint (alpha (px x y)))")
      case True
      with ih g(1) show ?thesis by auto
    next
      case False
      with a g(2,3) x have "length cmds < length cmds1" by auto
      with ih show ?thesis by simp
    qed
  qed
qed

lemma row_step_unchanged_iff:
  assumes "0 \<le> fst sz"
  shows "row_step px sz ox oy bt q thr y cmds = cmds \<longleftrightarrow>
         (\<forall>x\<in>set (py_range 0 (fst sz) q). uint (alpha (px x y)) \<le> thr)"
proof
  assume "\<forall>x\<in>set (py_range 0 (fst sz) q). uint (alpha (px x y)) \<le> thr"
  then have "\<forall>x\<in>set (py_range 0 (fst sz) q). \<not> thr < uint (alpha (px x y))" by auto
  then show "row_step px sz ox oy bt q thr y cmds = cmds"
    by (simp add: row_step_def fold_pixel_step_transparent)
next
  assume same: "row_step px sz ox oy bt q thr y cmds = cmds"
  obtain s' c' cmds' where
    run: "fold (pixel_step px sz ox oy bt thr y) (py_range 0 (fst sz) q) (- 1, None, cmds) =
            (s', c', cmds')"
    by (metis prod_cases3)
  have nonneg: "\<forall>x\<in>set (py_range 0 (fst sz) q). x \<noteq> - 1"
    using py_range_in_canvas [OF assms] by fastforce
  note g = fold_pixel_step_grows [OF run nonneg]
  show "\<forall>x\<in>set (py_range 0 (fst sz) q). uint (alpha (px x y)) \<le> thr"
  proof (rule ccontr)
    assume "\<not> (\<forall>x\<in>set (py_range 0 (fst sz) q). uint (alpha (px x y)) \<le> thr)"
    then have "\<exists>x\<in>set (py_range 0 (fst sz) q). thr < uint (alpha (px x y))"
      by (meson not_le)
    with g have "s' \<noteq> - 1 \<or> length cmds < length cmds'" by simp
    with g have "length cmds < length (row_step px sz ox oy bt q thr y cmds)"
      using run by (auto simp: row_step_def)
    with same show False by simp
  qed
qed


lemma fold_fixed: "\<forall>y\<in>set ys. f y a = a \<Longrightarrow> fold f ys a = a"
  by (induction ys) simp_all

lemma spans_segment:
  "0 < fst sz \<Longrightarrow> spans sz ox (segment sz ox oy bt s e y col) v \<longleftrightarrow> s \<le> v \<and> v \<le> e"
  by (simp add: spans_def segment_def divide_le_cancel)

lemma on_row_segment: "on_row sz oy (segment sz ox oy bt s e y col) y"
  by (simp add: on_row_def segment_def)

lemma on_row_unique:
  "0 < snd sz \<Longrightarrow> on_row sz oy c y \<Longrightarrow> on_row sz oy c y' \<Longrightarrow> y = y'"
  by (simp add: on_row_def)

lemma py_range_sorted: "0 < q \<Longrightarrow> sorted_wrt (<) (py_range x n q)"
proof (induction x n q rule: py_range.induct)
  case (1 x n q)
  show ?case
  proof (cases "x < n")
    case True
    with "1.prems" have go: "(0 < q \<and> x < n) \<or> (q < 0 \<and> n < x)" by simp
    have "x < v" if "v \<in> set (py_range (x + q) n q)" for v
      using py_range_bounds [OF that] "1.prems" by simp
    with "1.IH" [OF go "1.prems"] go show ?thesis
      by (simp add: py_range.simps [of x n q])
  next
    case False
    with "1.prems" show ?thesis by (simp add: py_range.simps [of x n q])
  qed
qed

lemma pixel_step_append:
  "pixel_step px sz ox oy bt thr y x (s, c, base @ cmds) =
     (case pixel_step px sz ox oy bt thr y x (s, c, cmds) of
        (s', c', cmds') \<Rightarrow> (s', c', base @ cmds'))"
  by (simp add: pixel_step_def Let_def split: prod.splits)

lemma fold_pixel_step_append:
  "fold (pixel_step px sz ox oy bt thr y) xs (s, c, base @ cmds) =
     (case fold (pixel_step px sz ox oy bt thr y) xs (s, c, cmds) of
        (s', c', cmds') \<Rightarrow> (s', c', base @ cmds'))"
proof (induction xs arbitrary: s c cmds)
  case Nil
  show ?case by simp
next
  case (Cons x xs)
  obtain s1 c1 cmds1 where
    step: "pixel_step px sz ox oy bt thr y x (s, c, cmds) = (s1, c1, cmds1)"
    by (metis prod_cases3)
  then have "pixel_step px sz ox oy bt thr y x (s, c, base @ cmds) = (s1, c1, base @ cmds1)"
    by (simp add: pixel_step_append)
  with step Cons.IH [of s1 c1 cmds1] show ?case by simp
qed

lemma row_step_append:
  "row_step px sz ox oy bt q thr y base = base @ row_step px sz ox oy bt q thr y []"
  using fold_pixel_step_append [of px sz ox oy bt thr y "py_range 0 (fst sz) q" "- 1" None base "[]"]
  by (simp add: row_step_def Let_def split: prod.splits)

lemma fold_row_step_concat:
  "fold (row_step px sz ox oy bt q thr) ys base =
     base @ concat (map (\<lambda>y. row_step px sz ox oy bt q thr y []) ys)"
proof (induction ys arbitrary: base)
  case Nil
  show ?case by simp
next
  case (Cons y ys)
  have "fold (row_step px sz ox oy bt q thr) (y # ys) base =
        fold (row_step px sz ox oy bt q thr) ys (base @ row_step px sz ox oy bt q thr y [])"
    using row_step_append [of px sz ox oy bt q thr y base] by simp
  also have "\<dots> = (base @ row_step px sz ox oy bt q thr y []) @
                   concat (map (\<lambda>y. row_step px sz ox oy bt q thr y []) ys)"
    by (rule Cons.IH)
  finally show ?case by simp
qed


lemma pixel_step_cover:
  assumes W: "0 < fst sz"
    and before: "\<forall>v\<in>set xs. v < x" and nonneg: "0 \<le> x"
    and start: "s = - 1 \<or> s \<in> set xs"
    and ends: "\<forall>k\<in>set cmds. \<forall>u. spans sz ox k u \<longrightarrow> (\<exists>v\<in>set xs. u < v)"
    and cover: "\<forall>v\<in>set xs. ((\<exists>k\<in>set cmds. spans sz ox k v) \<or> (s \<noteq> - 1 \<and> s \<le> v)) \<longleftrightarrow>
                  thr < uint (alpha (px v y))"
    and step: "pixel_step px sz ox oy bt thr y x (s, c, cmds) = (s1, c1, cmds1)"
  shows "(s1 = - 1 \<or> s1 \<in> set (xs @ [x])) \<and>
         (\<forall>k\<in>set cmds1. \<forall>u. spans sz ox k u \<longrightarrow> (\<exists>v\<in>set (xs @ [x]). u < v)) \<and>
         (\<forall>v\<in>set (xs @ [x]).
            ((\<exists>k\<in>set cmds1. spans sz ox k v) \<or> (s1 \<noteq> - 1 \<and> s1 \<le> v)) \<longleftrightarrow>
            thr < uint (alpha (px v y)))"
proof -
  have fresh: "\<not> (\<exists>k\<in>set cmds. spans sz ox k x)"
    using ends before by fastforce
  have lt: "s < x" using start before nonneg by auto
  note sp = spans_segment [OF W]
  show ?thesis
  proof (cases "thr < uint (alpha (px x y))")
    case opaque: True
    show ?thesis
    proof (cases "s = - 1")
      case True
      with opaque step have res: "s1 = x" "cmds1 = cmds"
        by (auto simp: pixel_step_def alpha_def Let_def split: prod.splits)
      have "x \<noteq> - 1" using nonneg by simp
      with True opaque fresh ends cover before show ?thesis
        unfolding res by (auto simp: not_le)
    next
      case False
      with start have sin: "s \<in> set xs" by simp
      from opaque step False have
        "(s1 = x \<and> cmds1 = cmds @ [segment sz ox oy bt s (x - 1) y c]) \<or>
         (s1 = s \<and> cmds1 = cmds)"
        by (auto simp: pixel_step_def alpha_def Let_def split: prod.splits if_splits)
      then show ?thesis
      proof
        assume res: "s1 = x \<and> cmds1 = cmds @ [segment sz ox oy bt s (x - 1) y c]"
        have x1: "x \<noteq> - 1" using nonneg by simp
        have a: "s1 = - 1 \<or> s1 \<in> set (xs @ [x])" using res by simp
        have b: "\<forall>k\<in>set cmds1. \<forall>u. spans sz ox k u \<longrightarrow> (\<exists>v\<in>set (xs @ [x]). u < v)"
          using res ends by (auto simp: sp)
        have c1: "((\<exists>k\<in>set cmds1. spans sz ox k v) \<or> (s1 \<noteq> - 1 \<and> s1 \<le> v)) \<longleftrightarrow>
                  thr < uint (alpha (px v y))" if "v \<in> set xs" for v
        proof -
          from that before have "v < x" by simp
          with res False cover that show ?thesis by (auto simp: sp)
        qed
        have c2: "((\<exists>k\<in>set cmds1. spans sz ox k x) \<or> (s1 \<noteq> - 1 \<and> s1 \<le> x)) \<longleftrightarrow>
                  thr < uint (alpha (px x y))"
          using res opaque x1 by simp
        from a b c1 c2 show ?thesis by simp
      next
        assume res: "s1 = s \<and> cmds1 = cmds"
        have a: "s1 = - 1 \<or> s1 \<in> set (xs @ [x])" using res sin by simp
        have b: "\<forall>k\<in>set cmds1. \<forall>u. spans sz ox k u \<longrightarrow> (\<exists>v\<in>set (xs @ [x]). u < v)"
          using res ends by auto
        have c1: "((\<exists>k\<in>set cmds1. spans sz ox k v) \<or> (s1 \<noteq> - 1 \<and> s1 \<le> v)) \<longleftrightarrow>
                  thr < uint (alpha (px v y))" if "v \<in> set xs" for v
          using res cover that by simp
        have c2: "((\<exists>k\<in>set cmds1. spans sz ox k x) \<or> (s1 \<noteq> - 1 \<and> s1 \<le> x)) \<longleftrightarrow>
                  thr < uint (alpha (px x y))"
          using res opaque False lt by simp
        from a b c1 c2 show ?thesis by simp
      qed
    qed
  next
    case clear: False
    show ?thesis
    proof (cases "s = - 1")
      case True
      with clear step have res: "s1 = - 1" "cmds1 = cmds"
        by (auto simp: pixel_step_def alpha_def Let_def split: prod.splits)
      have a: "s1 = - 1 \<or> s1 \<in> set (xs @ [x])" using res by simp
      have b: "\<forall>k\<in>set cmds1. \<forall>u. spans sz ox k u \<longrightarrow> (\<exists>v\<in>set (xs @ [x]). u < v)"
        using res ends by auto
      have c1: "((\<exists>k\<in>set cmds1. spans sz ox k v) \<or> (s1 \<noteq> - 1 \<and> s1 \<le> v)) \<longleftrightarrow>
                thr < uint (alpha (px v y))" if "v \<in> set xs" for v
        using res True cover that by simp
      have c2: "((\<exists>k\<in>set cmds1. spans sz ox k x) \<or> (s1 \<noteq> - 1 \<and> s1 \<le> x)) \<longleftrightarrow>
                thr < uint (alpha (px x y))"
        using res clear fresh by simp
      from a b c1 c2 show ?thesis by simp
    next
      case False
      with clear step have res: "s1 = - 1" "cmds1 = cmds @ [segment sz ox oy bt s (x - 1) y c]"
        by (auto simp: pixel_step_def alpha_def Let_def split: prod.splits)
      have a: "s1 = - 1 \<or> s1 \<in> set (xs @ [x])" using res by simp
      have b: "\<forall>k\<in>set cmds1. \<forall>u. spans sz ox k u \<longrightarrow> (\<exists>v\<in>set (xs @ [x]). u < v)"
        using res ends by (auto simp: sp)
      have c1: "((\<exists>k\<in>set cmds1. spans sz ox k v) \<or> (s1 \<noteq> - 1 \<and> s1 \<le> v)) \<longleftrightarrow>
                thr < uint (alpha (px v y))" if "v \<in> set xs" for v
      proof -
        from that before have "v < x" by simp
        with res False cover that show ?thesis by (auto simp: sp)
      qed
      have c2: "((\<exists>k\<in>set cmds1. spans sz ox k x) \<or> (s1 \<noteq> - 1 \<and> s1 \<le> x)) \<longleftrightarrow>
                thr < uint (alpha (px x y))"
        using res clear fresh by (simp add: sp)
      from a b c1 c2 show ?thesis by simp
    qed
  qed
qed


lemma fold_pixel_step_cover:
  assumes W: "0 < fst sz"
  shows "sorted_wrt (<) xs \<Longrightarrow> \<forall>v\<in>set xs. 0 \<le> v \<Longrightarrow>
         fold (pixel_step px sz ox oy bt thr y) xs (- 1, None, []) = (s, c, cmds) \<Longrightarrow>
         (s = - 1 \<or> s \<in> set xs) \<and>
         (\<forall>k\<in>set cmds. \<forall>u. spans sz ox k u \<longrightarrow> (\<exists>v\<in>set xs. u < v)) \<and>
         (\<forall>v\<in>set xs. ((\<exists>k\<in>set cmds. spans sz ox k v) \<or> (s \<noteq> - 1 \<and> s \<le> v)) \<longleftrightarrow>
                        thr < uint (alpha (px v y)))"
proof (induction xs arbitrary: s c cmds rule: rev_induct)
  case Nil
  then show ?case by simp
next
  case (snoc x xs)
  obtain s0 c0 cmds0 where
    pre: "fold (pixel_step px sz ox oy bt thr y) xs (- 1, None, []) = (s0, c0, cmds0)"
    by (metis prod_cases3)
  from snoc.prems(1) have sorted: "sorted_wrt (<) xs" and before: "\<forall>v\<in>set xs. v < x"
    by (simp_all add: sorted_wrt_append)
  from snoc.prems(2) have nn: "\<forall>v\<in>set xs. 0 \<le> v" and x: "0 \<le> x" by simp_all
  from snoc.IH [OF sorted nn pre] have
    start: "s0 = - 1 \<or> s0 \<in> set xs" and
    ends: "\<forall>k\<in>set cmds0. \<forall>u. spans sz ox k u \<longrightarrow> (\<exists>v\<in>set xs. u < v)" and
    cover: "\<forall>v\<in>set xs. ((\<exists>k\<in>set cmds0. spans sz ox k v) \<or> (s0 \<noteq> - 1 \<and> s0 \<le> v)) \<longleftrightarrow>
              thr < uint (alpha (px v y))"
    by blast+
  from snoc.prems(3) pre have
    step: "pixel_step px sz ox oy bt thr y x (s0, c0, cmds0) = (s, c, cmds)" by simp
  from pixel_step_cover [OF W before x start ends cover step] show ?case .
qed

lemma row_step_cover:
  assumes W: "0 < fst sz" and q: "0 < q" and v: "v \<in> set (py_range 0 (fst sz) q)"
  shows "(\<exists>k\<in>set (row_step px sz ox oy bt q thr y []). spans sz ox k v) \<longleftrightarrow>
         thr < uint (alpha (px v y))"
proof -
  let ?xs = "py_range 0 (fst sz) q"
  obtain s c cmds where
    run: "fold (pixel_step px sz ox oy bt thr y) ?xs (- 1, None, []) = (s, c, cmds)"
    by (metis prod_cases3)
  have bounds: "\<forall>u\<in>set ?xs. 0 \<le> u \<and> u < fst sz"
    using py_range_in_canvas [of "fst sz" _ q] W by simp
  then have nn: "\<forall>u\<in>set ?xs. 0 \<le> u" by simp
  from fold_pixel_step_cover [OF W py_range_sorted [OF q] nn run] have
    start: "s = - 1 \<or> s \<in> set ?xs" and
    cover: "\<forall>v\<in>set ?xs. ((\<exists>k\<in>set cmds. spans sz ox k v) \<or> (s \<noteq> - 1 \<and> s \<le> v)) \<longleftrightarrow>
              thr < uint (alpha (px v y))"
    by blast+
  from bounds v have vb: "0 \<le> v" "v \<le> fst sz - 1" by auto
  show ?thesis
  proof (cases "s = - 1")
    case True
    with run have "row_step px sz ox oy bt q thr y [] = cmds" by (simp add: row_step_def)
    with cover v True show ?thesis by simp
  next
    case False
    with run have "row_step px sz ox oy bt q thr y [] =
                   cmds @ [segment sz ox oy bt s (fst sz - 1) y c]"
      by (simp add: row_step_def Let_def)
    with cover v False vb show ?thesis by (auto simp: spans_segment [OF W])
  qed
qed

lemma row_step_on_row:
  assumes q: "0 < q" and k: "k \<in> set (row_step px sz ox oy bt q thr y [])"
  shows "on_row sz oy k y"
  using row_step_inv [of q "\<lambda>k. on_row sz oy k y" sz ox oy bt y "[]" px thr, OF q] k
  by (simp add: on_row_segment)

text \<open>
  Claim C5. On a canvas of positive size, a visited sample lies in a run exactly when its
  alpha is strictly above the threshold: for every visited row \<open>y\<close> and visited column
  \<open>x\<close>, some emitted command on row \<open>y\<close> spans column \<open>x\<close> iff the alpha of the sample at
  \<open>(x, y)\<close> is greater than the threshold. Hence a visited row whose visited samples all
  have alpha at most the threshold has no command (none lies on it, and the row adds
  nothing to the command list), and a canvas whose samples all have alpha at most the
  threshold gives the empty command list (for a stride that \<open>range\<close> accepts).
\<close>

theorem C5_opaque_samples:
  assumes "1 \<le> fst output_size" and "1 \<le> snd output_size"
  shows "(scan_canvas pixels output_size offset_x offset_y brush_thickness quality_factor
            transparency_threshold = Inr cmds \<and>
          y \<in> set (py_range 0 (snd output_size) quality_factor) \<longrightarrow>
            (\<forall>x\<in>set (py_range 0 (fst output_size) quality_factor).
               (\<exists>c\<in>set cmds. on_row output_size offset_y c y \<and> spans output_size offset_x c x) \<longleftrightarrow>
               transparency_threshold < uint (alpha (pixels x y))) \<and>
            ((\<forall>x\<in>set (py_range 0 (fst output_size) quality_factor).
                 uint (alpha (pixels x y)) \<le> transparency_threshold) \<longrightarrow>
             (\<forall>c\<in>set cmds. \<not> on_row output_size offset_y c y))) \<and>
         (row_step pixels output_size offset_x offset_y brush_thickness quality_factor
            transparency_threshold y commands = commands \<longleftrightarrow>
          (\<forall>x\<in>set (py_range 0 (fst output_size) quality_factor).
              uint (alpha (pixels x y)) \<le> transparency_threshold)) \<and>
         ((\<forall>x y. 0 \<le> x \<and> x < fst output_size \<and> 0 \<le> y \<and> y < snd output_size \<longrightarrow>
                 uint (alpha (pixels x y)) \<le> transparency_threshold) \<longrightarrow>
          scan_canvas pixels output_size offset_x offset_y brush_thickness quality_factor
            transparency_threshold =
          (if quality_factor = 0 then Inl ValueError else Inr []))"
proof -
  from assms have W: "0 < fst output_size" and H: "0 < snd output_size"
    and W0: "0 \<le> fst output_size" and H0: "0 \<le> snd output_size" by simp_all
  let ?row = "\<lambda>y. row_step pixels output_size offset_x offset_y brush_thickness quality_factor
                      transparency_threshold y []"
  let ?ys = "py_range 0 (snd output_size) quality_factor"
  let ?xs = "py_range 0 (fst output_size) quality_factor"
  have canvas:
    "(\<forall>x\<in>set ?xs.
        (\<exists>c\<in>set cmds. on_row output_size offset_y c y \<and> spans output_size offset_x c x) \<longleftrightarrow>
        transparency_threshold < uint (alpha (pixels x y))) \<and>
     ((\<forall>x\<in>set ?xs. uint (alpha (pixels x y)) \<le> transparency_threshold) \<longrightarrow>
      (\<forall>c\<in>set cmds. \<not> on_row output_size offset_y c y))"
    if run: "scan_canvas pixels output_size offset_x offset_y brush_thickness quality_factor
               transparency_threshold = Inr cmds"
      and y: "y \<in> set ?ys"
  proof -
    from run have q0: "quality_factor \<noteq> 0"
      by (auto simp: scan_canvas_def split: if_splits)
    have q: "0 < quality_factor"
    proof (rule ccontr)
      assume "\<not> 0 < quality_factor"
      with q0 have "quality_factor < 0" by simp
      from py_range_negative_step [OF H0 this] y show False by simp
    qed
    from run q0 have cmds: "cmds = concat (map ?row ?ys)"
      by (simp add: scan_canvas_def fold_row_step_concat)
    have only: "c \<in> set (?row y)" if "c \<in> set cmds" and "on_row output_size offset_y c y" for c
    proof -
      from that(1) cmds obtain y' where y': "y' \<in> set ?ys" and c: "c \<in> set (?row y')" by auto
      from row_step_on_row [OF q c] have "on_row output_size offset_y c y'" .
      from on_row_unique [OF H that(2) this] c show ?thesis by simp
    qed
    have here: "c \<in> set cmds \<and> on_row output_size offset_y c y" if "c \<in> set (?row y)" for c
      using that y cmds row_step_on_row [OF q that] by auto
    have a: "(\<exists>c\<in>set cmds. on_row output_size offset_y c y \<and> spans output_size offset_x c x) \<longleftrightarrow>
             transparency_threshold < uint (alpha (pixels x y))" if x: "x \<in> set ?xs" for x
    proof -
      have "(\<exists>c\<in>set cmds. on_row output_size offset_y c y \<and> spans output_size offset_x c x) \<longleftrightarrow>
            (\<exists>c\<in>set (?row y). spans output_size offset_x c x)"
        using only here by blast
      with row_step_cover [OF W q x] show ?thesis by simp
    qed
    have b: "\<forall>c\<in>set cmds. \<not> on_row output_size offset_y c y"
      if "\<forall>x\<in>set ?xs. uint (alpha (pixels x y)) \<le> transparency_threshold"
    proof -
      from that have "?row y = []" by (simp add: row_step_unchanged_iff [OF W0])
      with only show ?thesis by fastforce
    qed
    from a b show ?thesis by blast
  qed
  have row: "row_step pixels output_size offset_x offset_y brush_thickness quality_factor
               transparency_threshold y commands = commands \<longleftrightarrow>
             (\<forall>x\<in>set ?xs. uint (alpha (pixels x y)) \<le> transparency_threshold)"
    by (rule row_step_unchanged_iff [OF W0])
  have clear: "scan_canvas pixels output_size offset_x offset_y brush_thickness quality_factor
                 transparency_threshold =
               (if quality_factor = 0 then Inl ValueError else Inr [])"
    if all: "\<forall>x y. 0 \<le> x \<and> x < fst output_size \<and> 0 \<le> y \<and> y < snd output_size \<longrightarrow>
                   uint (alpha (pixels x y)) \<le> transparency_threshold"
  proof -
    have "row_step pixels output_size offset_x offset_y brush_thickness quality_factor
            transparency_threshold y' [] = []" if "y' \<in> set ?ys" for y'
    proof -
      from py_range_in_canvas [OF H0 that] have "0 \<le> y' \<and> y' < snd output_size" .
      with all py_range_in_canvas [OF W0]
      have "\<forall>x\<in>set ?xs. uint (alpha (pixels x y')) \<le> transparency_threshold" by blast
      then show ?thesis by (simp add: row_step_unchanged_iff [OF W0])
    qed
    then have "fold (row_step pixels output_size offset_x offset_y brush_thickness quality_factor
                       transparency_threshold) ?ys [] = []"
      by (intro fold_fixed) simp
    then show ?thesis by (simp add: scan_canvas_def)
  qed
  from canvas row clear show ?thesis by blast
qed


theorem C5_opaque_samples_witness:
  "scan_canvas (\<lambda>x y. if x = 1 \<or> y = 1 then (0, 0, 0, 10) else (255, 0, 0, 255)) (3, 2) 0 0 2 1 10 =
     Inr [\<lparr>start_norm = (0, 0), end_norm = (0, 0), color = Some ''#FF0000'', thickness = 2\<rparr>,
          \<lparr>start_norm = (2 / 3, 0), end_norm = (2 / 3, 0), color = Some ''#FF0000'', thickness = 2\<rparr>] \<and>
   10 < uint (alpha (255, 0, 0, 255)) \<and>
   spans (3, 2) 0 \<lparr>start_norm = (0, 0), end_norm = (0, 0), color = Some ''#FF0000'', thickness = 2\<rparr> 0 \<and>
   \<not> 10 < uint (alpha (0, 0, 0, 10)) \<and>
   \<not> spans (3, 2) 0 \<lparr>start_norm = (0, 0), end_norm = (0, 0), color = Some ''#FF0000'', thickness = 2\<rparr> 1 \<and>
   \<not> spans (3, 2) 0 \<lparr>start_norm = (2 / 3, 0), end_norm = (2 / 3, 0), color = Some ''#FF0000'', thickness = 2\<rparr> 1 \<and>
   \<not> on_row (3, 2) 0 \<lparr>start_norm = (0, 0), end_norm = (0, 0), color = Some ''#FF0000'', thickness = 2\<rparr> 1 \<and>
   \<not> on_row (3, 2) 0 \<lparr>start_norm = (2 / 3, 0), end_norm = (2 / 3, 0), color = Some ''#FF0000'', thickness = 2\<rparr> 1"
proof -
  let ?px = "\<lambda>x y :: int. if x = 1 \<or> y = 1 then (0, 0, 0, 10) else (255, 0, 0, 255 :: 8 word)"
  let ?k1 = "\<lparr>start_norm = (0, 0), end_norm = (0, 0), color = Some ''#FF0000'', thickness = 2\<rparr>"
  let ?k2 = "\<lparr>start_norm = (2 / 3, 0), end_norm = (2 / 3, 0), color = Some ''#FF0000'', thickness = 2\<rparr>"
  have run: "scan_canvas ?px (3, 2) 0 0 2 1 10 = Inr [?k1, ?k2]"
    by code_simp
  have xs: "py_range 0 3 1 = [0, 1, 2]" and ys: "py_range 0 2 1 = [0, 1]"
    by code_simp+
  have sz: "1 \<le> fst (3 :: int, 2 :: int)" "1 \<le> snd (3 :: int, 2 :: int)" by simp_all
  note t0 = C5_opaque_samples [OF sz, of ?px 0 0 2 1 10 "[?k1, ?k2]" 0 "[]"]
  note t1 = C5_opaque_samples [OF sz, of ?px 0 0 2 1 10 "[?k1, ?k2]" 1 "[]"]
  from t0 run have r0:
    "\<forall>x\<in>set (py_range 0 3 1).
       (\<exists>c\<in>set [?k1, ?k2]. on_row (3, 2) 0 c 0 \<and> spans (3, 2) 0 c x) \<longleftrightarrow>
       10 < uint (alpha (?px x 0))"
    by (simp add: ys)
  from t1 run have r1:
    "(\<forall>x\<in>set (py_range 0 3 1). uint (alpha (?px x 1)) \<le> 10) \<longrightarrow>
     (\<forall>c\<in>set [?k1, ?k2]. \<not> on_row (3, 2) 0 c 1)"
    by (simp add: ys)
  have clear: "uint (alpha (0, 0, 0, 10)) \<le> 10" by (simp add: alpha_def)
  from r1 clear have rows: "\<not> on_row (3, 2) 0 ?k1 1" "\<not> on_row (3, 2) 0 ?k2 1"
    by simp_all
  from r0 have at0: "spans (3, 2) 0 ?k1 0" and opaque: "10 < uint (alpha (255, 0, 0, 255))"
    and at1: "\<not> spans (3, 2) 0 ?k1 1" "\<not> spans (3, 2) 0 ?k2 1"
    by (simp_all add: xs alpha_def spans_def on_row_def)
  from run rows at0 at1 opaque clear show ?thesis by simp
qed

subsection \<open>Determinism\<close>





subsection \<open>Where a run ends\<close>

lemma refine_step:
  assumes "0 < q" and "0 \<le> x" and "x < n"
    and "cmds = base @ map (run_command sz ox oy bt y \<circ> widen q n) runs"
    and "\<forall>r\<in>set runs. fst (snd r) < n"
    and "rn = NoRun \<longrightarrow> s = - 1"
    and "\<forall>s0 c0 l. rn = OpenRun s0 c0 l \<longrightarrow> s = s0 \<and> c = Some c0 \<and> 0 \<le> s0 \<and> l = x - q \<and> l < n"
    and "pixel_step px sz ox oy bt thr y x (s, c, cmds) = (s1, c1, cmds1)"
    and "spec_pixel_step px thr y x (rn, runs) = (rn1, runs1)"
  shows "cmds1 = base @ map (run_command sz ox oy bt y \<circ> widen q n) runs1 \<and>
         (\<forall>r\<in>set runs1. fst (snd r) < n) \<and>
         (rn1 = NoRun \<longrightarrow> s1 = - 1) \<and>
         (\<forall>s0 c0 l. rn1 = OpenRun s0 c0 l \<longrightarrow>
            s1 = s0 \<and> c1 = Some c0 \<and> 0 \<le> s0 \<and> l = x + q - q \<and> l < n)"
proof (cases rn)
  case NoRun
  with assms show ?thesis
    by (auto simp: pixel_step_def spec_pixel_step_def Let_def split: prod.splits if_splits)
next
  case (OpenRun s0 c0 l)
  with assms(7) have st: "s = s0" "c = Some c0" "0 \<le> s0" "l = x - q" "l < n" by auto
  from st assms(3) have "min (l + q - 1) (n - 1) = x - 1" by simp
  then have w: "run_command sz ox oy bt y (widen q n (s0, l, c0)) =
                segment sz ox oy bt s0 (x - 1) y (Some c0)"
    by (simp add: run_command_def widen_def)
  from assms(4,5,8,9) OpenRun st assms(2,3) w show ?thesis
    by (auto simp: pixel_step_def spec_pixel_step_def Let_def split: prod.splits if_splits)
qed


lemma refine_fold:
  "0 < q \<Longrightarrow> 0 \<le> x \<Longrightarrow>
   cmds = base @ map (run_command sz ox oy bt y \<circ> widen q n) runs \<Longrightarrow>
   \<forall>r\<in>set runs. fst (snd r) < n \<Longrightarrow>
   rn = NoRun \<longrightarrow> s = - 1 \<Longrightarrow>
   \<forall>s0 c0 l. rn = OpenRun s0 c0 l \<longrightarrow> s = s0 \<and> c = Some c0 \<and> 0 \<le> s0 \<and> l = x - q \<and> l < n \<Longrightarrow>
   fold (pixel_step px sz ox oy bt thr y) (py_range x n q) (s, c, cmds) = (s', c', cmds') \<Longrightarrow>
   fold (spec_pixel_step px thr y) (py_range x n q) (rn, runs) = (rn', runs') \<Longrightarrow>
   cmds' = base @ map (run_command sz ox oy bt y \<circ> widen q n) runs' \<and>
   (\<forall>r\<in>set runs'. fst (snd r) < n) \<and>
   (rn' = NoRun \<longrightarrow> s' = - 1) \<and>
   (\<forall>s0 c0 l. rn' = OpenRun s0 c0 l \<longrightarrow>
      s' = s0 \<and> c' = Some c0 \<and> 0 \<le> s0 \<and> l < n \<and> n \<le> l + q)"
proof (induction x n q arbitrary: s c cmds rn runs rule: py_range.induct)
  case (1 x n q)
  show ?case
  proof (cases "x < n")
    case True
    with "1.prems"(1) have go: "(0 < q \<and> x < n) \<or> (q < 0 \<and> n < x)" by simp
    obtain s1 c1 cmds1 where
      code: "pixel_step px sz ox oy bt thr y x (s, c, cmds) = (s1, c1, cmds1)"
      by (metis prod_cases3)
    obtain rn1 runs1 where
      spec: "spec_pixel_step px thr y x (rn, runs) = (rn1, runs1)"
      by (metis surj_pair)
    from refine_step [OF "1.prems"(1,2) True "1.prems"(3,4,5,6) code spec]
    have a: "cmds1 = base @ map (run_command sz ox oy bt y \<circ> widen q n) runs1"
      and b: "\<forall>r\<in>set runs1. fst (snd r) < n"
      and c: "rn1 = NoRun \<longrightarrow> s1 = - 1"
      and d: "\<forall>s0 c0 l. rn1 = OpenRun s0 c0 l \<longrightarrow>
                s1 = s0 \<and> c1 = Some c0 \<and> 0 \<le> s0 \<and> l = x + q - q \<and> l < n"
      by blast+
    from "1.prems"(1,2) have x': "0 \<le> x + q" by simp
    from "1.prems"(7) go code have
      code': "fold (pixel_step px sz ox oy bt thr y) (py_range (x + q) n q) (s1, c1, cmds1) = (s', c', cmds')"
      by (simp add: py_range.simps [of x n q])
    from "1.prems"(8) go spec have
      spec': "fold (spec_pixel_step px thr y) (py_range (x + q) n q) (rn1, runs1) = (rn', runs')"
      by (simp add: py_range.simps [of x n q])
    from "1.IH" [OF go "1.prems"(1) x' a b c d code' spec'] show ?thesis .
  next
    case False
    with "1.prems"(1) have stop: "py_range x n q = []"
      by (simp add: py_range.simps [of x n q])
    with "1.prems"(7,8) have same: "s' = s" "c' = c" "cmds' = cmds" "rn' = rn" "runs' = runs"
      by simp_all
    from False "1.prems"(3,4,5,6) show ?thesis unfolding same by auto
  qed
qed

lemma row_step_refines:
  assumes q: "0 < q"
  shows "row_step px sz ox oy bt q thr y cmds =
         cmds @ map (run_command sz ox oy bt y \<circ> widen q (fst sz)) (spec_row_runs px (fst sz) q thr y)"
proof -
  obtain s' c' cmds' where
    code: "fold (pixel_step px sz ox oy bt thr y) (py_range 0 (fst sz) q) (- 1, None, cmds) =
             (s', c', cmds')"
    by (metis prod_cases3)
  obtain rn' runs' where
    spec: "fold (spec_pixel_step px thr y) (py_range 0 (fst sz) q) (NoRun, []) = (rn', runs')"
    by (metis surj_pair)
  from refine_fold [where base = cmds, OF q _ _ _ _ _ code spec]
  have a: "cmds' = cmds @ map (run_command sz ox oy bt y \<circ> widen q (fst sz)) runs'"
    and c: "rn' = NoRun \<longrightarrow> s' = - 1"
    and d: "\<forall>s0 c0 l. rn' = OpenRun s0 c0 l \<longrightarrow>
              s' = s0 \<and> c' = Some c0 \<and> 0 \<le> s0 \<and> l < fst sz \<and> fst sz \<le> l + q"
    by simp_all
  show ?thesis
  proof (cases rn')
    case NoRun
    with a c code spec show ?thesis by (simp add: row_step_def spec_row_runs_def Let_def)
  next
    case (OpenRun s0 c0 l)
    with d have st: "s' = s0" "c' = Some c0" "0 \<le> s0" "l < fst sz" "fst sz \<le> l + q" by auto
    from st have "min (l + q - 1) (fst sz - 1) = fst sz - 1" by simp
    then have "run_command sz ox oy bt y (widen q (fst sz) (s0, l, c0)) =
          segment sz ox oy bt s0 (fst sz - 1) y (Some c0)"
      by (simp add: run_command_def widen_def)
    with a code spec OpenRun st show ?thesis
      by (simp add: row_step_def spec_row_runs_def Let_def)
  qed
qed

lemma spec_row_runs_bounded:
  assumes q: "0 < q" and r: "r \<in> set (spec_row_runs px n q thr y)"
  shows "fst (snd r) < n"
proof -
  obtain s' c' cmds' where
    code: "fold (pixel_step px (n, 1) 0 0 0 thr y) (py_range 0 n q) (- 1, None, []) =
             (s', c', cmds')"
    by (metis prod_cases3)
  obtain rn' runs' where
    spec: "fold (spec_pixel_step px thr y) (py_range 0 n q) (NoRun, []) = (rn', runs')"
    by (metis surj_pair)
  from refine_fold [where base = "[]", OF q _ _ _ _ _ code spec]
  have b: "\<forall>r\<in>set runs'. fst (snd r) < n"
    and d: "\<forall>s0 c0 l. rn' = OpenRun s0 c0 l \<longrightarrow>
              s' = s0 \<and> c' = Some c0 \<and> 0 \<le> s0 \<and> l < n \<and> n \<le> l + q"
    by simp_all
  show ?thesis
  proof (cases rn')
    case NoRun
    with b r spec show ?thesis by (simp add: spec_row_runs_def)
  next
    case (OpenRun s0 c0 l)
    with b d r spec show ?thesis by (auto simp: spec_row_runs_def)
  qed
qed


lemma spec_row_runs_width:
  assumes q: "0 < q" and r: "r \<in> set (spec_row_runs px n q thr y)"
  shows "0 < n"
proof (rule ccontr)
  assume "\<not> 0 < n"
  with q have "py_range 0 n q = []" by (simp add: py_range.simps [of 0 n q])
  then have "spec_row_runs px n q thr y = []" by (simp add: spec_row_runs_def)
  with r show False by simp
qed

lemma run_command_widen_iff:
  assumes q: "0 < q" and r: "r \<in> set (spec_row_runs px (fst sz) q thr y)"
  shows "run_command sz ox oy bt y (widen q (fst sz) r) = run_command sz ox oy bt y r \<longleftrightarrow>
         q = 1 \<or> fst (snd r) = fst sz - 1"
proof -
  obtain s e c where rr: "r = (s, e, c)" by (metis prod_cases3)
  from spec_row_runs_width [OF q r] have W: "fst sz \<noteq> 0" by simp
  from spec_row_runs_bounded [OF q r] rr have e: "e < fst sz" by simp
  have "run_command sz ox oy bt y (widen q (fst sz) r) = run_command sz ox oy bt y r \<longleftrightarrow>
        min (e + q - 1) (fst sz - 1) = e"
    using W by (simp add: rr run_command_def widen_def segment_def)
  also have "\<dots> \<longleftrightarrow> q = 1 \<or> e = fst sz - 1" using q e by auto
  finally show ?thesis by (simp add: rr)
qed

text \<open>
  Claim C2, as amended. For every row and every stride \<open>\<ge> 1\<close> the commands of the row are
  those of the runs of section 4.3, each with its end moved from the last visited column
  \<open>e\<close> of the run to the raw column \<open>min (e + stride - 1) (width - 1)\<close>. The command of a run
  ends at the last visited column of the run, as the claim states, exactly when the
  stride is \<open>1\<close> or that column is the last column of the canvas; so for stride \<open>1\<close> the
  commands are those of the claim.
\<close>

theorem C2_run_ends:
  assumes "1 \<le> quality_factor"
  shows "row_step pixels output_size offset_x offset_y brush_thickness quality_factor
           transparency_threshold y commands =
         commands @
         map (run_command output_size offset_x offset_y brush_thickness y)
             (map (widen quality_factor (fst output_size))
                  (spec_row_runs pixels (fst output_size) quality_factor
                     transparency_threshold y)) \<and>
         (\<forall>r\<in>set (spec_row_runs pixels (fst output_size) quality_factor
                      transparency_threshold y).
            run_command output_size offset_x offset_y brush_thickness y
              (widen quality_factor (fst output_size) r) =
            run_command output_size offset_x offset_y brush_thickness y r \<longleftrightarrow>
            quality_factor = 1 \<or> fst (snd r) = fst output_size - 1) \<and>
         (quality_factor = 1 \<longrightarrow>
          row_step pixels output_size offset_x offset_y brush_thickness quality_factor
            transparency_threshold y commands =
          commands @
          map (run_command output_size offset_x offset_y brush_thickness y)
              (spec_row_runs pixels (fst output_size) quality_factor
                 transparency_threshold y))"
proof (intro conjI impI ballI)
  from assms have q: "0 < quality_factor" by simp
  show general:
    "row_step pixels output_size offset_x offset_y brush_thickness quality_factor
       transparency_threshold y commands =
     commands @
     map (run_command output_size offset_x offset_y brush_thickness y)
         (map (widen quality_factor (fst output_size))
              (spec_row_runs pixels (fst output_size) quality_factor
                 transparency_threshold y))"
    by (simp add: row_step_refines [OF q])
  show "run_command output_size offset_x offset_y brush_thickness y
          (widen quality_factor (fst output_size) r) =
        run_command output_size offset_x offset_y brush_thickness y r \<longleftrightarrow>
        quality_factor = 1 \<or> fst (snd r) = fst output_size - 1"
    if "r \<in> set (spec_row_runs pixels (fst output_size) quality_factor
                    transparency_threshold y)" for r
    by (rule run_command_widen_iff [OF q that])
  assume one: "quality_factor = 1"
  have "widen quality_factor (fst output_size) r = r"
    if "r \<in> set (spec_row_runs pixels (fst output_size) quality_factor transparency_threshold y)"
    for r
  proof -
    from spec_row_runs_bounded [OF q that] have "fst (snd r) < fst output_size" .
    with one show ?thesis by (cases r) (simp add: widen_def)
  qed
  then have "map (widen quality_factor (fst output_size))
               (spec_row_runs pixels (fst output_size) quality_factor transparency_threshold y) =
             spec_row_runs pixels (fst output_size) quality_factor transparency_threshold y"
    by (simp add: map_idI)
  with general show
    "row_step pixels output_size offset_x offset_y brush_thickness quality_factor
       transparency_threshold y commands =
     commands @
     map (run_command output_size offset_x offset_y brush_thickness y)
         (spec_row_runs pixels (fst output_size) quality_factor transparency_threshold y)"
    by simp
qed

theorem C2_run_ends_witness:
  "row_step (\<lambda>x y. if x < 2 then (255, 0, 0, 255) else (0, 0, 255, 255)) (4, 1) 0 0 2 1 10 0 [] =
     [] @ map (run_command (4, 1) 0 0 2 0)
         (spec_row_runs (\<lambda>x y. if x < 2 then (255, 0, 0, 255) else (0, 0, 255, 255))
            (fst (4 :: int, 1 :: int)) 1 10 0) \<and>
   row_step (\<lambda>x y. if x < 2 then (255, 0, 0, 255) else (0, 0, 255, 255)) (4, 1) 0 0 2 2 10 0 [] =
     [] @ map (run_command (4, 1) 0 0 2 0)
         (map (widen 2 (fst (4 :: int, 1 :: int)))
            (spec_row_runs (\<lambda>x y. if x < 2 then (255, 0, 0, 255) else (0, 0, 255, 255))
               (fst (4 :: int, 1 :: int)) 2 10 0))"
proof -
  have one: "(1::int) \<le> 1" and two: "(1::int) \<le> 2" by simp_all
  from C2_run_ends [OF one, of "\<lambda>x y. if x < 2 then (255, 0, 0, 255) else (0, 0, 255, 255)"
                       "(4, 1)" 0 0 2 10 0 "[]"]
       C2_run_ends [OF two, of "\<lambda>x y. if x < 2 then (255, 0, 0, 255) else (0, 0, 255, 255)"
                       "(4, 1)" 0 0 2 10 0 "[]"]
  show ?thesis by blast
qed

text \<open>
  Claim C2 as stated fails for a stride above \<open>1\<close>: on the row red, red, blue, blue of a
  canvas of width \<open>4\<close> with stride \<open>2\<close>, the visited columns are \<open>0\<close> and \<open>2\<close>; the source
  ends the red run at column \<open>1\<close> and the blue run at column \<open>3\<close>, where the claim has
  columns \<open>0\<close> and \<open>2\<close>.
\<close>

theorem C2_stride_counterexample:
  "row_step (\<lambda>x y. if x < 2 then (255, 0, 0, 255) else (0, 0, 255, 255)) (4, 1) 0 0 2 2 10 0 [] =
     [\<lparr>start_norm = (0, 0), end_norm = (1 / 4, 0), color = Some ''#FF0000'', thickness = 2\<rparr>,
      \<lparr>start_norm = (1 / 2, 0), end_norm = (3 / 4, 0), color = Some ''#0000FF'', thickness = 2\<rparr>] \<and>
   map (run_command (4, 1) 0 0 2 0)
       (spec_row_runs (\<lambda>x y. if x < 2 then (255, 0, 0, 255) else (0, 0, 255, 255)) 4 2 10 0) =
     [\<lparr>start_norm = (0, 0), end_norm = (0, 0), color = Some ''#FF0000'', thickness = 2\<rparr>,
      \<lparr>start_norm = (1 / 2, 0), end_norm = (1 / 2, 0), color = Some ''#0000FF'', thickness = 2\<rparr>] \<and>
   row_step (\<lambda>x y. if x < 2 then (255, 0, 0, 255) else (0, 0, 255, 255)) (4, 1) 0 0 2 2 10 0 [] \<noteq>
   map (run_command (4, 1) 0 0 2 0)
       (spec_row_runs (\<lambda>x y. if x < 2 then (255, 0, 0, 255) else (0, 0, 255, 255)) 4 2 10 0)"
proof -
  have code:
    "row_step (\<lambda>x y. if x < 2 then (255, 0, 0, 255) else (0, 0, 255, 255)) (4, 1) 0 0 2 2 10 0 [] =
     [\<lparr>start_norm = (0, 0), end_norm = (1 / 4, 0), color = Some ''#FF0000'', thickness = 2\<rparr>,
      \<lparr>start_norm = (1 / 2, 0), end_norm = (3 / 4, 0), color = Some ''#0000FF'', thickness = 2\<rparr>]"
    by code_simp
  have spec:
    "map (run_command (4, 1) 0 0 2 0)
       (spec_row_runs (\<lambda>x y. if x < 2 then (255, 0, 0, 255) else (0, 0, 255, 255)) 4 2 10 0) =
     [\<lparr>start_norm = (0, 0), end_norm = (0, 0), color = Some ''#FF0000'', thickness = 2\<rparr>,
      \<lparr>start_norm = (1 / 2, 0), end_norm = (1 / 2, 0), color = Some ''#0000FF'', thickness = 2\<rparr>]"
    by code_simp
  show ?thesis unfolding code spec by simp
qed

section \<open>The normalizer\<close>





section \<open>The offsets in the emitted coordinates\<close>

text \<open>
  Claim C1 at two inputs. The columns and rows that the loops visit are addresses of the
  canvas on which the frame was already pasted at \<open>(offset_x, offset_y)\<close>, and the source
  adds the offsets to them once more. A \<open>9 \<times> 9\<close> opaque frame on a \<open>13 \<times> 13\<close> canvas with
  stride \<open>10\<close> gives an end coordinate of \<open>14 / 13\<close>, above \<open>1\<close>; a \<open>1 \<times> 1\<close> frame on a
  \<open>3 \<times> 3\<close> canvas sits at canvas address \<open>(1, 1)\<close> and is reported at \<open>2 / 3\<close>, not
  \<open>1 / 3\<close>.
\<close>

theorem C1_offset_added_twice:
  "get_drawing_commands_from_image no_resize (solid 9 9 (255, 0, 0, 255)) (13, 13) 2 10 10 =
     Inr [\<lparr>start_norm = (12 / 13, 12 / 13), end_norm = (14 / 13, 12 / 13),
           color = Some ''#FF0000'', thickness = 2\<rparr>] \<and>
   (1 :: rat) < 14 / 13 \<and>
   snd (normalize_frame no_resize (solid 1 1 (255, 0, 0, 255)) (3, 3)) = (1, 1) \<and>
   get_drawing_commands_from_image no_resize (solid 1 1 (255, 0, 0, 255)) (3, 3) 2 1 10 =
     Inr [\<lparr>start_norm = (2 / 3, 2 / 3), end_norm = (2 / 3, 2 / 3),
           color = Some ''#FF0000'', thickness = 2\<rparr>]"
proof -
  have a: "get_drawing_commands_from_image no_resize (solid 9 9 (255, 0, 0, 255)) (13, 13) 2 10 10 =
     Inr [\<lparr>start_norm = (12 / 13, 12 / 13), end_norm = (14 / 13, 12 / 13),
           color = Some ''#FF0000'', thickness = 2\<rparr>]"
    by code_simp
  have b: "get_drawing_commands_from_image no_resize (solid 1 1 (255, 0, 0, 255)) (3, 3) 2 1 10 =
     Inr [\<lparr>start_norm = (2 / 3, 2 / 3), end_norm = (2 / 3, 2 / 3),
           color = Some ''#FF0000'', thickness = 2\<rparr>]"
    by code_simp
  have c: "snd (normalize_frame no_resize (solid 1 1 (255, 0, 0, 255)) (3, 3)) = (1, 1)"
    by (simp add: normalize_frame_def thumbnail_def solid_def Let_def)
  from a b c show ?thesis by simp
qed

section \<open>The object store\<close>

lemma store_result:
  assumes "image_input < length st"
  shows "get_drawing_commands_from_image_st resize image_input output_size brush_thickness
           quality_factor transparency_threshold st =
         (get_drawing_commands_from_image resize (st ! image_input) output_size brush_thickness
            quality_factor transparency_threshold,
          st @ [thumbnail resize output_size (st ! image_input),
                fst (normalize_frame resize (st ! image_input) output_size)])"
  using assms
  by (simp add: get_drawing_commands_from_image_st_def get_drawing_commands_from_image_def
        normalize_frame_def alloc_def Let_def nth_append list_update_append)

text \<open>
  Claim C10. The call leaves the caller's frame as it was: the store after the call
  holds every object it held before, unchanged (the converted copy and the canvas are
  new objects, and \<open>thumbnail\<close> and \<open>paste\<close> change only those), and the commands are
  those computed from the frame's content.
\<close>

theorem C10_input_unchanged:
  assumes "image_input < length st"
  shows "(case get_drawing_commands_from_image_st resize image_input output_size brush_thickness
                 quality_factor transparency_threshold st of
            (result, st') \<Rightarrow>
              st' ! image_input = st ! image_input \<and>
              take (length st) st' = st \<and>
              result = get_drawing_commands_from_image resize (st ! image_input) output_size
                         brush_thickness quality_factor transparency_threshold)"
  using assms by (simp add: store_result nth_append)

theorem C10_input_unchanged_witness:
  "(0 :: nat) < length [solid 200 100 (255, 0, 0, 255)] \<and>
   snd (get_drawing_commands_from_image_st shrink_resize 0 (100, 100) 2 1 10
          [solid 200 100 (255, 0, 0, 255)]) ! 0 = solid 200 100 (255, 0, 0, 255) \<and>
   im_width (snd (get_drawing_commands_from_image_st shrink_resize 0 (100, 100) 2 1 10
                    [solid 200 100 (255, 0, 0, 255)]) ! 1) = 100"
proof -
  have copy:
    "im_width (snd (get_drawing_commands_from_image_st shrink_resize 0 (100, 100) 2 1 10
                      [solid 200 100 (255, 0, 0, 255)]) ! 1) = 100"
    by (simp add: store_result thumbnail_def shrink_resize_def solid_def)
  from C10_input_unchanged [of 0 "[solid 200 100 (255, 0, 0, 255)]" shrink_resize
         "(100, 100)" 2 1 10] copy
  show ?thesis by (simp split: prod.splits)
qed

section \<open>The aggregator\<close>

lemma scan_canvas_total:
  "quality_factor \<noteq> 0 \<Longrightarrow> \<exists>cs. scan_canvas pixels output_size offset_x offset_y brush_thickness quality_factor transparency_threshold = Inr cs"
  by (simp add: scan_canvas_def)

lemma get_drawing_commands_total:
  "quality_factor \<noteq> 0 \<Longrightarrow>
     \<exists>cs. get_drawing_commands_from_image resize frame output_size brush_thickness quality_factor transparency_threshold = Inr cs"
  by (simp add: get_drawing_commands_from_image_def scan_canvas_total split: prod.splits)

lemma process_frames_counts:
  "process_frames rs sz bt q thr mf i fs (fd, tc, c) = Inr (fd', tc', c') \<Longrightarrow>
     c' - c = int (length fd') - int (length fd) \<and>
     tc' - tc = int (sum_list (map length fd')) - int (sum_list (map length fd))"
proof (induction fs arbitrary: i fd tc c)
  case Nil
  then show ?case by simp
next
  case (Cons f fs)
  show ?case
  proof (cases "case mf of None \<Rightarrow> False | Some m \<Rightarrow> m \<le> int i")
    case True
    with Cons.prems show ?thesis by simp
  next
    case False
    with Cons.prems obtain cs where
      enc: "get_drawing_commands_from_image rs f sz bt q thr = Inr cs" and
      rec: "process_frames rs sz bt q thr mf (Suc i) fs (fd @ [cs], tc + int (length cs), c + 1) = Inr (fd', tc', c')"
      by (auto split: sum.splits)
    from Cons.IH [OF rec] show ?thesis by simp
  qed
qed

lemma process_frames_cap:
  "q \<noteq> 0 \<Longrightarrow> int i \<le> m \<Longrightarrow>
     \<exists>new. process_frames rs sz bt q thr (Some m) i fs (fd, tc, c) =
             Inr (fd @ new, tc + int (sum_list (map length new)), c + int (length new)) \<and>
           map Inr new = map (\<lambda>f. get_drawing_commands_from_image rs f sz bt q thr)
                             (take (nat (m - int i)) fs)"
proof (induction fs arbitrary: i fd tc c)
  case Nil
  then show ?case by simp
next
  case (Cons f fs)
  show ?case
  proof (cases "m \<le> int i")
    case True
    with Cons.prems have "m = int i" by simp
    then show ?thesis by simp
  next
    case False
    from get_drawing_commands_total [OF Cons.prems(1)] obtain cs where
      enc: "get_drawing_commands_from_image rs f sz bt q thr = Inr cs" by blast
    from False have le: "int (Suc i) \<le> m" by simp
    from Cons.IH [OF Cons.prems(1) le, of "fd @ [cs]" "tc + int (length cs)" "c + 1"]
    obtain new where
      rec: "process_frames rs sz bt q thr (Some m) (Suc i) fs (fd @ [cs], tc + int (length cs), c + 1) =
              Inr ((fd @ [cs]) @ new, tc + int (length cs) + int (sum_list (map length new)), c + 1 + int (length new))" and
      enc_rest: "map Inr new = map (\<lambda>f. get_drawing_commands_from_image rs f sz bt q thr) (take (nat (m - int (Suc i))) fs)"
      by blast
    from False have "nat (m - int i) = Suc (nat (m - int (Suc i)))" by arith
    then have tk: "take (nat (m - int i)) (f # fs) = f # take (nat (m - int (Suc i))) fs"
      by simp
    show ?thesis
      apply (rule exI [of _ "cs # new"])
      using False enc rec enc_rest tk by simp
  qed
qed


lemma process_frames_total:
  "q \<noteq> 0 \<Longrightarrow> \<exists>r. process_frames rs sz bt q thr mf i fs acc = Inr r"
proof (induction fs arbitrary: i acc)
  case Nil
  show ?case by (metis process_frames.simps(1))
next
  case (Cons f fs)
  obtain fd tc c where acc: "acc = (fd, tc, c)" by (metis prod_cases3)
  from get_drawing_commands_total [OF Cons.prems] obtain cs where
    "get_drawing_commands_from_image rs f sz bt q thr = Inr cs" by blast
  with Cons.IH [OF Cons.prems] show ?case by (simp add: acc)
qed

lemma processor_total:
  "q \<noteq> 0 \<Longrightarrow> \<exists>d. gif_to_drawaria_json_processor rs (Some gif) sz bt q thr mf = Inr (Some d)"
proof -
  assume "q \<noteq> 0"
  from process_frames_total [OF this] obtain r where
    "process_frames rs sz bt q thr mf 0 (gif_frames gif) ([], 0, 0) = Inr r" by blast
  then show ?thesis
    by (cases r) (simp add: gif_to_drawaria_json_processor_def)
qed

text \<open>
  Claim C6. With a frame cap \<open>max_frames = n\<close>, \<open>n \<ge> 1\<close>, on a source of at least \<open>n\<close>
  frames (a canvas of positive size and a stride that \<open>range\<close> accepts, so that the
  encoder raises nothing), the conversion returns normally with a
  result whose frame results are the encodings of exactly the first \<open>n\<close> frames, in
  order, and whose \<open>frame_count\<close> is \<open>n\<close>.
\<close>

theorem C6_frame_cap:
  assumes "quality_factor \<noteq> 0" and "1 \<le> n" and "n \<le> int (length (gif_frames gif))"
    and "1 \<le> fst output_size" and "1 \<le> snd output_size"
  shows "\<exists>d. gif_to_drawaria_json_processor resize (Some gif) output_size brush_thickness
                quality_factor transparency_threshold (Some n) = Inr (Some d) \<and>
             map Inr (frames d) =
               map (\<lambda>f. get_drawing_commands_from_image resize f output_size brush_thickness
                          quality_factor transparency_threshold)
                   (take (nat n) (gif_frames gif)) \<and>
             int (length (frames d)) = n \<and>
             frame_count (metadata d) = n"
proof -
  from assms(2) have "int 0 \<le> n" by simp
  from process_frames_cap [OF assms(1) this, of resize output_size brush_thickness
         transparency_threshold "gif_frames gif" "[]" 0 0]
  obtain new where
    run: "process_frames resize output_size brush_thickness quality_factor
            transparency_threshold (Some n) 0 (gif_frames gif) ([], 0, 0) =
          Inr (new, int (sum_list (map length new)), int (length new))" and
    enc: "map Inr new =
            map (\<lambda>f. get_drawing_commands_from_image resize f output_size brush_thickness
                       quality_factor transparency_threshold)
                (take (nat n) (gif_frames gif))"
    by auto
  from enc have "length new = length (take (nat n) (gif_frames gif))"
    by (metis length_map)
  with assms(2,3) have len: "int (length new) = n" by simp
  show ?thesis
    using run enc len by (simp add: gif_to_drawaria_json_processor_def)
qed

theorem C6_frame_cap_witness:
  "(1::int) \<noteq> 0 \<and> (1::int) \<le> 2 \<and> 1 \<le> fst (1::int, 1::int) \<and> 1 \<le> snd (1::int, 1::int) \<and>
   2 \<le> int (length (gif_frames \<lparr>duration = Some 100, gif_frames = replicate 5 (solid 1 1 (255, 0, 0, 255))\<rparr>)) \<and>
   (\<exists>d. gif_to_drawaria_json_processor no_resize
          (Some \<lparr>duration = Some 100, gif_frames = replicate 5 (solid 1 1 (255, 0, 0, 255))\<rparr>)
          (1, 1) 2 1 10 (Some 2) = Inr (Some d) \<and>
        int (length (frames d)) = 2 \<and> frame_count (metadata d) = 2)"
  using C6_frame_cap [where quality_factor = 1 and n = 2 and resize = no_resize
          and gif = "\<lparr>duration = Some 100, gif_frames = replicate 5 (solid 1 1 (255, 0, 0, 255))\<rparr>"
          and output_size = "(1, 1)" and brush_thickness = 2 and transparency_threshold = 10]
  by auto

text \<open>
  Claim C9. In every conversion result, \<open>frame_count\<close> is the length of \<open>frames\<close>,
  \<open>total_commands_generated\<close> is the sum of the lengths of the per-frame command lists,
  and \<open>processing_options\<close> holds the brush thickness, quality factor, transparency
  threshold and frame cap that were passed in.
\<close>

theorem C9_metadata_consistent:
  assumes "gif_to_drawaria_json_processor resize opened output_size brush_thickness
             quality_factor transparency_threshold max_frames = Inr (Some d)"
  shows "frame_count (metadata d) = int (length (frames d)) \<and>
         total_commands_generated (metadata d) = int (sum_list (map length (frames d))) \<and>
         processing_options (metadata d) =
           \<lparr>opt_brush_thickness = brush_thickness, opt_quality_factor = quality_factor,
            opt_transparency_threshold = transparency_threshold,
            max_frames_processed = max_frames\<rparr>"
proof -
  from assms obtain gif where opened: "opened = Some gif"
    by (cases opened) (simp_all add: gif_to_drawaria_json_processor_def)
  obtain r where
    r: "process_frames resize output_size brush_thickness quality_factor
          transparency_threshold max_frames 0 (gif_frames gif) ([], 0, 0) = r"
    by simp
  with assms opened obtain fd tc c where res: "r = Inr (fd, tc, c)"
    by (cases r) (auto simp: gif_to_drawaria_json_processor_def)
  from assms opened r res have
    d: "d = \<lparr>frames = fd,
             metadata = \<lparr>md_width = fst output_size, md_height = snd output_size,
                         original_fps = determine_fps (duration gif), frame_count = c,
                         total_commands_generated = tc,
                         processing_options =
                           \<lparr>opt_brush_thickness = brush_thickness,
                            opt_quality_factor = quality_factor,
                            opt_transparency_threshold = transparency_threshold,
                            max_frames_processed = max_frames\<rparr>\<rparr>\<rparr>"
    by (simp add: gif_to_drawaria_json_processor_def)
  from process_frames_counts [OF r [unfolded res]] show ?thesis by (simp add: d)
qed

text \<open>
  Claim C7. The \<open>original_fps\<close> of a conversion result depends on the source's declared
  delay only, not on the frames: it is \<open>1000\<close> divided by the delay in milliseconds,
  and the default \<open>10\<close> when no delay is declared or the division fails (a delay of \<open>0\<close>).
\<close>

theorem C7_fps:
  assumes "gif_to_drawaria_json_processor resize (Some gif) output_size brush_thickness
             quality_factor transparency_threshold max_frames = Inr (Some d)"
  shows "original_fps (metadata d) =
           (case duration gif of
              None \<Rightarrow> 10
            | Some ms \<Rightarrow> if ms = 0 then 10 else 1000 / of_int ms)"
  using assms
  by (auto simp: gif_to_drawaria_json_processor_def determine_fps_def py_truediv_def
           split: option.splits sum.splits)


theorem C9_metadata_consistent_witness:
  "gif_to_drawaria_json_processor no_resize
     (Some \<lparr>duration = None,
            gif_frames = [solid 2 1 (255, 0, 0, 255), solid 1 1 (0, 0, 255, 255)]\<rparr>)
     (2, 2) 3 1 10 None =
   Inr (Some
     \<lparr>frames =
        [[\<lparr>start_norm = (0, 0), end_norm = (1 / 2, 0), color = Some ''#FF0000'', thickness = 3\<rparr>],
         [\<lparr>start_norm = (0, 0), end_norm = (0, 0), color = Some ''#0000FF'', thickness = 3\<rparr>]],
      metadata =
        \<lparr>md_width = 2, md_height = 2, original_fps = 10, frame_count = 2,
         total_commands_generated = 2,
         processing_options =
           \<lparr>opt_brush_thickness = 3, opt_quality_factor = 1,
            opt_transparency_threshold = 10, max_frames_processed = None\<rparr>\<rparr>\<rparr>) \<and>
   (2::int) = int (length [[0::nat], [1]]) \<and> (2::int) = int (sum_list (map length [[0::nat], [1]]))"
proof -
  have run:
    "gif_to_drawaria_json_processor no_resize
       (Some \<lparr>duration = None,
              gif_frames = [solid 2 1 (255, 0, 0, 255), solid 1 1 (0, 0, 255, 255)]\<rparr>)
       (2, 2) 3 1 10 None =
     Inr (Some
       \<lparr>frames =
          [[\<lparr>start_norm = (0, 0), end_norm = (1 / 2, 0), color = Some ''#FF0000'', thickness = 3\<rparr>],
           [\<lparr>start_norm = (0, 0), end_norm = (0, 0), color = Some ''#0000FF'', thickness = 3\<rparr>]],
        metadata =
          \<lparr>md_width = 2, md_height = 2, original_fps = 10, frame_count = 2,
           total_commands_generated = 2,
           processing_options =
             \<lparr>opt_brush_thickness = 3, opt_quality_factor = 1,
              opt_transparency_threshold = 10, max_frames_processed = None\<rparr>\<rparr>\<rparr>)"
    by code_simp
  from C9_metadata_consistent [OF run] show ?thesis using run by simp
qed

theorem C7_fps_witness:
  "(\<exists>d. gif_to_drawaria_json_processor no_resize
          (Some \<lparr>duration = Some 40, gif_frames = [solid 1 1 (0, 255, 0, 200)]\<rparr>)
          (1, 1) 2 1 10 None = Inr (Some d) \<and> original_fps (metadata d) = 25) \<and>
   (\<exists>d. gif_to_drawaria_json_processor no_resize
          (Some \<lparr>duration = Some 0, gif_frames = [solid 1 1 (0, 255, 0, 200)]\<rparr>)
          (1, 1) 2 1 10 None = Inr (Some d) \<and> original_fps (metadata d) = 10) \<and>
   (\<exists>d. gif_to_drawaria_json_processor no_resize
          (Some \<lparr>duration = None, gif_frames = [solid 1 1 (0, 255, 0, 200)]\<rparr>)
          (1, 1) 2 1 10 None = Inr (Some d) \<and> original_fps (metadata d) = 10)"
proof -
  let ?fs = "[solid 1 1 (0, 255, 0, 200)]"
  obtain d1 where r1: "gif_to_drawaria_json_processor no_resize
          (Some \<lparr>duration = Some 40, gif_frames = ?fs\<rparr>) (1, 1) 2 1 10 None = Inr (Some d1)"
    using processor_total [of 1 no_resize _ "(1, 1)" 2 10 None] by fastforce
  obtain d2 where r2: "gif_to_drawaria_json_processor no_resize
          (Some \<lparr>duration = Some 0, gif_frames = ?fs\<rparr>) (1, 1) 2 1 10 None = Inr (Some d2)"
    using processor_total [of 1 no_resize _ "(1, 1)" 2 10 None] by fastforce
  obtain d3 where r3: "gif_to_drawaria_json_processor no_resize
          (Some \<lparr>duration = None, gif_frames = ?fs\<rparr>) (1, 1) 2 1 10 None = Inr (Some d3)"
    using processor_total [of 1 no_resize _ "(1, 1)" 2 10 None] by fastforce
  from C7_fps [OF r1] C7_fps [OF r2] C7_fps [OF r3] r1 r2 r3 show ?thesis by simp
qed

end
